theory Spec2Isabelle
  imports Main
begin

section \<open>The text substitution engine of \<open>realm/util/substitute.hpp\<close>\<close>

text \<open>
  The header defines \<open>Substituter<A...>\<close>: variables are defined once, a text is parsed
  into a \<open>Template\<close> (the text and a list of substitutions), and the template is expanded
  onto a \<open>std::ostream\<close> any number of times. The development below embeds the parser,
  the variable definitions and the expansion, with the stream, the logger, the objects
  behind captured pointers and the context arguments as explicit values.
\<close>

subsection \<open>Exceptions, logging and the output stream\<close>

datatype exn =
    runtime_error string
  | out_of_range
  | ios_failure
  | user_exception nat

text \<open>
  A call that can throw returns the exception (if any) together with the stream as the
  call left it: the stream is the caller's object and survives the throw.
\<close>

type_synonym 'a thrown = "exn option \<times> 'a"

datatype Level = Level_warn | Level_error

text \<open>One call of \<open>Logger::log\<close>: the level, the format string and its parameters.\<close>

type_synonym log_entry = "Level \<times> string \<times> string list"

datatype std_locale = classic | named_locale string

text \<open>
  The part of a \<open>std::ostream\<close> that the header reads or writes: the characters written
  so far, the format flags (\<open>fmtflags\<close>, a bit mask), the formatting state kept outside
  the flag word (field width, precision, fill character, imbued locale), and whether the
  stream has failed and raises on failure (its \<open>exceptions()\<close> mask).
\<close>

record ostream =
  buf :: string
  flags :: nat
  width :: nat
  precision :: nat
  fill :: char
  loc :: std_locale
  bad :: bool
  throwing :: bool

text \<open>
  \<open>(flags & ios_base::adjustfield) == ios_base::left\<close>, with \<open>internal\<close>, \<open>left\<close> and
  \<open>right\<close> the bits 4, 5 and 7 of the flag word.
\<close>

definition adjust_left :: "nat \<Rightarrow> bool" where
  "adjust_left fl = (bit fl 5 \<and> \<not> bit fl 4 \<and> \<not> bit fl 7)"

text \<open>
  The characters that a formatted insertion of \<open>s\<close> writes: \<open>s\<close> padded with the fill
  character to the field width, on the right when the stream is left-adjusted and on the
  left otherwise.
\<close>

definition padded :: "ostream \<Rightarrow> string \<Rightarrow> string" where
  "padded out s =
     (if length s < width out then
        (if adjust_left (flags out) then s @ replicate (width out - length s) (fill out)
         else replicate (width out - length s) (fill out) @ s)
      else s)"

text \<open>
  \<open>out << text\<close> for a string view or a character literal, a formatted insertion: a
  stream that is not good accepts nothing, and raises when its exception mask says so;
  a good stream takes the padded text and has its field width set to zero.
\<close>

definition put_str :: "string \<Rightarrow> ostream \<Rightarrow> ostream thrown" where
  "put_str s out =
     (if bad out then (if throwing out then (Some ios_failure, out) else (None, out))
      else (None, out\<lparr>buf := buf out @ padded out s, width := 0\<rparr>))"

text \<open>Running \<open>g\<close> after a call, unless that call has thrown.\<close>

definition and_then :: "ostream thrown \<Rightarrow> (ostream \<Rightarrow> ostream thrown) \<Rightarrow> ostream thrown" where
  "and_then r g = (case r of (Some e, out) \<Rightarrow> (Some e, out) | (None, out) \<Rightarrow> g out)"

text \<open>A default-constructed \<open>std::ostringstream\<close>; its locale is a copy of the global one.\<close>

definition ostringstream :: "std_locale \<Rightarrow> ostream" where
  "ostringstream global =
     \<lparr>buf = [], flags = 4098, width = 0, precision = 6, fill = CHR '' '', loc = global,
      bad = False, throwing = False\<rparr>"

definition imbue :: "std_locale \<Rightarrow> ostream \<Rightarrow> ostream" where
  "imbue l out = out\<lparr>loc := l\<rparr>"

subsection \<open>String views\<close>

text \<open>
  \<open>std::string_view::find(ch, pos)\<close>: the first index at or after \<open>pos\<close> that holds
  \<open>ch\<close>; \<open>None\<close> stands for \<open>npos\<close>.
\<close>

definition find_char :: "string \<Rightarrow> char \<Rightarrow> nat \<Rightarrow> nat option" where
  "find_char text c pos =
     (let rest = drop pos text; k = length (takeWhile (\<lambda>x. x \<noteq> c) rest)
      in if k < length rest then Some (pos + k) else None)"

text \<open>
  \<open>std::string_view::substr(pos, n)\<close> throws when \<open>pos\<close> is beyond the size and clamps
  \<open>n\<close> to what is left. \<open>substr_view\<close> is its result for a position in range.
\<close>

definition substr_view :: "string \<Rightarrow> nat \<Rightarrow> nat \<Rightarrow> string" where
  "substr_view text pos n = take n (drop pos text)"

definition substr :: "string \<Rightarrow> nat \<Rightarrow> nat \<Rightarrow> exn + string" where
  "substr text pos n = (if length text < pos then Inl out_of_range else Inr (substr_view text pos n))"

text \<open>\<open>substr(pos)\<close>, the count left at its default \<open>npos\<close>: everything from \<open>pos\<close> on.\<close>

definition substr_rest :: "string \<Rightarrow> nat \<Rightarrow> exn + string" where
  "substr_rest text pos = (if length text < pos then Inl out_of_range else Inr (drop pos text))"

text \<open>Subtraction of two \<open>size_type\<close> values (64 bits, unsigned): it wraps around.\<close>

definition size_sub :: "nat \<Rightarrow> nat \<Rightarrow> nat" where
  "size_sub a b = (if b \<le> a then a - b else 2 ^ 64 - (b - a))"

subsection \<open>The engine, its variables and compiled templates\<close>

text \<open>
  \<open>EvalFunc = void(std::ostream&, A&...)\<close>. The first argument of the model is the store
  that the pointers captured by a closure point into, read when the function runs; the
  context arguments \<open>A&...\<close> are a list of objects.
\<close>

type_synonym ('a, 'v) EvalFunc = "('a \<Rightarrow> 'v) \<Rightarrow> ostream \<Rightarrow> 'v list \<Rightarrow> ostream thrown"

text \<open>
  \<open>Substitution\<close> has the members \<open>begin\<close>, \<open>end\<close> and \<open>var_def\<close>; the first two are
  written \<open>s_begin\<close> and \<open>s_end\<close> here. \<open>var_def\<close> points to an entry (name and function)
  of the variable map, or is null.
\<close>

record ('a, 'v) Substitution =
  s_begin :: nat
  s_end :: nat
  var_def :: "(string \<times> ('a, 'v) EvalFunc) option"

text \<open>
  \<open>Template::m_text\<close> is a string view into the buffer of the caller. In \<open>Template\<close> below
  \<open>m_text\<close> is the characters that this view shows when a member function runs; the
  object with the view itself is \<open>Template_object\<close>, further down.
\<close>

record ('a, 'v) Template =
  m_text :: string
  m_substitutions :: "('a, 'v) Substitution list"

record ('a, 'v) Substituter =
  m_lenient :: bool
  m_variables :: "string \<rightharpoonup> ('a, 'v) EvalFunc"

text \<open>\<open>Substituter(SubstituterConfig)\<close> with the given leniency; no variable is defined.\<close>

definition Substituter_new :: "bool \<Rightarrow> ('a, 'v) Substituter" where
  "Substituter_new lenient = \<lparr>m_lenient = lenient, m_variables = Map.empty\<rparr>"

text \<open>A default-constructed \<open>Template\<close>.\<close>

definition Template_new :: "('a, 'v) Template" where
  "Template_new = \<lparr>m_text = [], m_substitutions = []\<rparr>"

subsection \<open>Defining variables\<close>

text \<open>
  A definition either succeeds, or is rejected when the program is compiled
  (\<open>ill_formed\<close>), or throws when it runs.
\<close>

datatype failure = ill_formed | thrown exn

text \<open>\<open>Substituter::define\<close>: \<open>emplace\<close> inserts only when the name is free.\<close>

definition Substituter_define ::
  "string \<Rightarrow> ('a, 'v) EvalFunc \<Rightarrow> ('a, 'v) Substituter \<Rightarrow> failure + ('a, 'v) Substituter" where
  "Substituter_define name func s =
     (case m_variables s name of
        None \<Rightarrow> Inr (s\<lparr>m_variables := (m_variables s)(name \<mapsto> func)\<rparr>)
      | Some _ \<Rightarrow> Inl (thrown (runtime_error ''Multiple definitions for same variable name'')))"

text \<open>
  \<open>FindArg1<T, A...>::find\<close> and \<open>FindArg2<T, bool, A, B...>::find\<close>. \<open>conv A T\<close> is
  \<open>std::is_convertible<remove_reference<A>::type*, const T*>\<close>. The primary template of
  \<open>FindArg1\<close> is declared and never defined, so an empty list of types has no \<open>find\<close>.
\<close>

fun FindArg1 :: "('t \<Rightarrow> 't \<Rightarrow> bool) \<Rightarrow> 't \<Rightarrow> 't list \<Rightarrow> ('v list \<Rightarrow> 'v) option"
  and FindArg2 :: "('t \<Rightarrow> 't \<Rightarrow> bool) \<Rightarrow> 't \<Rightarrow> bool \<Rightarrow> 't \<Rightarrow> 't list \<Rightarrow> ('v list \<Rightarrow> 'v) option"
where
  "FindArg1 conv T [] = None"
| "FindArg1 conv T (A # B) = FindArg2 conv T (conv A T) A B"
| "FindArg2 conv T True A B = Some (\<lambda>args. hd args)"
| "FindArg2 conv T False A B = map_option (\<lambda>rest args. rest (tl args)) (FindArg1 conv T B)"

text \<open>\<open>ProtoDef::operator=(std::function<EvalFunc>)\<close>.\<close>

definition assign_func ::
  "string \<Rightarrow> ('a, 'v) EvalFunc \<Rightarrow> ('a, 'v) Substituter \<Rightarrow> failure + ('a, 'v) Substituter" where
  "assign_func name func s = Substituter_define name func s"

text \<open>
  \<open>ProtoDef::operator=(T* var)\<close>: the closure captures the pointer and writes \<open>*var\<close>.
  \<open>ins\<close> is \<open>operator<<\<close> for \<open>T\<close>.
\<close>

definition assign_value ::
  "('v \<Rightarrow> ostream \<Rightarrow> ostream thrown) \<Rightarrow> string \<Rightarrow> 'a \<Rightarrow> ('a, 'v) Substituter
     \<Rightarrow> failure + ('a, 'v) Substituter" where
  "assign_value ins name var s = assign_func name (\<lambda>store out arg. ins (store var) out) s"

text \<open>
  \<open>ProtoDef::operator=(T C::* var)\<close> for an engine over the context types \<open>As\<close>:
  \<open>member\<close> is \<open>obj.*var\<close>, \<open>ins\<close> is \<open>operator<<\<close> for \<open>T\<close>.
\<close>

definition assign_field ::
  "('t \<Rightarrow> 't \<Rightarrow> bool) \<Rightarrow> 't list \<Rightarrow> 't \<Rightarrow> ('v \<Rightarrow> 'v) \<Rightarrow> ('v \<Rightarrow> ostream \<Rightarrow> ostream thrown)
     \<Rightarrow> string \<Rightarrow> ('a, 'v) Substituter \<Rightarrow> failure + ('a, 'v) Substituter" where
  "assign_field conv As C member ins name s =
     (case FindArg1 conv C As of
        None \<Rightarrow> Inl ill_formed
      | Some find_arg \<Rightarrow> assign_func name (\<lambda>store out arg. ins (member (find_arg arg)) out) s)"

subsection \<open>Parsing\<close>

definition log_level :: "('a, 'v) Substituter \<Rightarrow> Level" where
  "log_level s = (if m_lenient s then Level_warn else Level_error)"

text \<open>The three calls of \<open>logger.log\<close> in \<open>parse\<close>.\<close>

definition log_unterminated_marker :: "('a, 'v) Substituter \<Rightarrow> log_entry" where
  "log_unterminated_marker s = (log_level s, ''Unterminated `@` at end of text'', [])"

definition log_unterminated_brace :: "('a, 'v) Substituter \<Rightarrow> log_entry" where
  "log_unterminated_brace s = (log_level s, ''Unterminated `@'' @ ''{`'', [])"

definition log_undefined :: "('a, 'v) Substituter \<Rightarrow> string \<Rightarrow> string \<Rightarrow> log_entry" where
  "log_undefined s var_name excerpt =
     (log_level s, ''Undefined variable `%1` in substitution `%2`'', [var_name, excerpt])"

text \<open>
  What follows the marker at \<open>i\<close> (with \<open>i + 1 < size\<close>): the variable name and the
  position after the reference, or nothing for an opening brace that is never closed.
\<close>

definition reference_at :: "string \<Rightarrow> nat \<Rightarrow> (string \<times> nat) option" where
  "reference_at text i =
     (if text ! (i + 1) = CHR ''{'' then
        (case find_char text CHR ''}'' (i + 2) of
           None \<Rightarrow> None
         | Some j \<Rightarrow> Some (substr_view text (i + 2) (j - (i + 2)), j + 1))
      else Some (substr_view text (i + 1) 1, i + 2))"

lemma find_char_bounds:
  assumes "find_char text c pos = Some i"
  shows "pos \<le> i" and "i < length text"
  using assms by (auto simp: find_char_def Let_def split: if_splits)

lemma reference_at_bounds:
  assumes "reference_at text i = Some (name, e)" and "i + 1 < length text"
  shows "i + 2 \<le> e" and "e \<le> length text"
  using assms find_char_bounds [of "text" "CHR ''}''" "i + 2"]
  by (auto simp: reference_at_def split: if_splits option.splits)

text \<open>
  The loop of \<open>Substituter::parse\<close>, with its local variables \<open>error\<close>, \<open>substitutions\<close>
  and \<open>curr\<close> (here \<open>cur\<close>) and the entries logged so far as arguments; it returns the
  log, \<open>error\<close> and \<open>substitutions\<close> as they are when the loop is left. The logger is
  a list that each call of \<open>log\<close> extends.
\<close>

function parse_loop ::
  "('a, 'v) Substituter \<Rightarrow> string \<Rightarrow> log_entry list \<Rightarrow> bool \<Rightarrow> ('a, 'v) Substitution list \<Rightarrow> nat
     \<Rightarrow> log_entry list \<times> bool \<times> ('a, 'v) Substitution list" where
  "parse_loop s text lg err subs cur =
     (case find_char text CHR ''@'' cur of
        None \<Rightarrow> (lg, err, subs)
      | Some i \<Rightarrow>
          if i + 1 = length text then
            (lg @ [log_unterminated_marker s], True, subs)
          else
            (case reference_at text i of
               None \<Rightarrow>
                 parse_loop s text (lg @ [log_unterminated_brace s]) True subs (i + 2)
             | Some (var_name, cur') \<Rightarrow>
                 if text ! (i + 1) \<noteq> CHR ''@'' then
                   (case m_variables s var_name of
                      None \<Rightarrow>
                        parse_loop s text
                          (lg @ [log_undefined s var_name (substr_view text i (cur' - i))])
                          True subs cur'
                    | Some func \<Rightarrow>
                        parse_loop s text lg err
                          (subs @ [\<lparr>s_begin = i, s_end = cur', var_def = Some (var_name, func)\<rparr>])
                          cur')
                 else
                   parse_loop s text lg err
                     (subs @ [\<lparr>s_begin = i, s_end = cur', var_def = None\<rparr>]) cur'))"
  by pat_completeness auto

termination
proof (relation "measure (\<lambda>(s, text, lg, err, subs, cur). Suc (length text) - cur)")
  show "wf (measure (\<lambda>(s, text, lg, err, subs, cur). Suc (length text) - cur))"
    by simp
qed (use find_char_bounds reference_at_bounds in \<open>fastforce\<close>)+

declare parse_loop.simps [simp del]

text \<open>\<open>Substituter::parse(text, templ, logger)\<close>: the result, the template object and the log.\<close>

definition parse ::
  "('a, 'v) Substituter \<Rightarrow> string \<Rightarrow> ('a, 'v) Template \<Rightarrow> log_entry list
     \<Rightarrow> bool \<times> ('a, 'v) Template \<times> log_entry list" where
  "parse s text templ lg =
     (case parse_loop s text lg False [] 0 of
        (lg', err, substitutions) \<Rightarrow>
          if err \<and> \<not> m_lenient s then (False, templ, lg')
          else (True, \<lparr>m_text = text, m_substitutions = substitutions\<rparr>, lg'))"

subsection \<open>Expansion\<close>

text \<open>
  The body of the \<open>try\<close> block of \<open>Template::expand(std::ostream&, A...)\<close>: one equation
  for an iteration of the loop over the substitutions, one for the statement after the
  loop. \<open>fl\<close> is the local variable \<open>flags\<close>, \<open>cur\<close> is \<open>curr\<close>.
\<close>

fun expand_loop ::
  "nat \<Rightarrow> string \<Rightarrow> ('a \<Rightarrow> 'v) \<Rightarrow> 'v list \<Rightarrow> ('a, 'v) Substitution list \<Rightarrow> nat \<Rightarrow> ostream
     \<Rightarrow> ostream thrown" where
  "expand_loop fl text store arg [] cur out =
     (case substr_rest text cur of
        Inl e \<Rightarrow> (Some e, out)
      | Inr lit \<Rightarrow> put_str lit out)"
| "expand_loop fl text store arg (subst # rest) cur out =
     (case substr text cur (size_sub (s_begin subst) cur) of
        Inl e \<Rightarrow> (Some e, out)
      | Inr lit \<Rightarrow>
          and_then (put_str lit out) (\<lambda>out1.
          and_then
            (case var_def subst of
               Some (name, eval_func) \<Rightarrow>
                 and_then (eval_func store out1 arg) (\<lambda>out2. (None, out2\<lparr>flags := fl\<rparr>))
             | None \<Rightarrow> put_str ''@'' out1)
            (\<lambda>out3. expand_loop fl text store arg rest (s_end subst) out3)))"

text \<open>
  \<open>Template::expand(std::ostream&, A...)\<close>: the flags are read once on entry and set
  again in the handler before the exception is thrown on.
\<close>

definition Template_expand ::
  "('a, 'v) Template \<Rightarrow> ('a \<Rightarrow> 'v) \<Rightarrow> 'v list \<Rightarrow> ostream \<Rightarrow> ostream thrown" where
  "Template_expand templ store arg out =
     (case expand_loop (flags out) (m_text templ) store arg (m_substitutions templ) 0 out of
        (Some e, out') \<Rightarrow> (Some e, out'\<lparr>flags := flags out\<rparr>)
      | (None, out') \<Rightarrow> (None, out'))"

text \<open>
  \<open>Template::expand(A&&...)\<close>, returning a string: a new string stream, created while
  \<open>global\<close> is the process-wide locale, is imbued with the classic locale first.
\<close>

definition Template_expand_str ::
  "std_locale \<Rightarrow> ('a, 'v) Template \<Rightarrow> ('a \<Rightarrow> 'v) \<Rightarrow> 'v list \<Rightarrow> exn + string" where
  "Template_expand_str global templ store arg =
     (case Template_expand templ store arg (imbue classic (ostringstream global)) of
        (Some e, out) \<Rightarrow> Inl e
      | (None, out) \<Rightarrow> Inr (buf out))"

subsection \<open>The template as an object with a view of the text\<close>

text \<open>
  A \<open>std::string_view\<close> is a pointer and a size; the memory \<open>mem\<close> gives the characters
  stored from a pointer on. \<open>view_bytes\<close> is what the view shows in a given memory.
\<close>

record 'b string_view =
  sv_data :: 'b
  sv_size :: nat

definition view_bytes :: "('b \<Rightarrow> string) \<Rightarrow> 'b string_view \<Rightarrow> string" where
  "view_bytes mem v = take (sv_size v) (mem (sv_data v))"

text \<open>
  The \<open>Template\<close> object as it is stored: the view \<open>m_text\<close> (here \<open>t_text\<close>) and the
  substitutions. \<open>seen_in mem obj\<close> is the template that a member function called in the
  memory \<open>mem\<close> works on.
\<close>

record ('a, 'b, 'v) Template_object =
  t_text :: "'b string_view"
  t_substitutions :: "('a, 'v) Substitution list"

definition seen_in :: "('b \<Rightarrow> string) \<Rightarrow> ('a, 'b, 'v) Template_object \<Rightarrow> ('a, 'v) Template" where
  "seen_in mem obj = \<lparr>m_text = view_bytes mem (t_text obj), m_substitutions = t_substitutions obj\<rparr>"

text \<open>
  \<open>Substituter::parse\<close> on a view: the text is read through the view, and on success the
  view itself is assigned to the template.
\<close>

definition parse_view ::
  "('a, 'v) Substituter \<Rightarrow> ('b \<Rightarrow> string) \<Rightarrow> 'b string_view \<Rightarrow> ('a, 'b, 'v) Template_object
     \<Rightarrow> log_entry list \<Rightarrow> bool \<times> ('a, 'b, 'v) Template_object \<times> log_entry list" where
  "parse_view s mem text templ lg =
     (case parse_loop s (view_bytes mem text) lg False [] 0 of
        (lg', err, substitutions) \<Rightarrow>
          if err \<and> \<not> m_lenient s then (False, templ, lg')
          else (True, \<lparr>t_text = text, t_substitutions = substitutions\<rparr>, lg'))"

subsection \<open>Example engines\<close>

text \<open>
  Engines over string values with addresses \<open>nat\<close>, used to run the definitions on
  concrete inputs: \<open>write_X\<close> is the closure \<open>[](std::ostream& out) { out << "X"; }\<close>.
\<close>

definition write_X :: "(nat, string) EvalFunc" where
  "write_X store out arg = put_str ''X'' out"

definition engine_x :: "bool \<Rightarrow> (nat, string) Substituter" where
  "engine_x lenient = \<lparr>m_lenient = lenient, m_variables = [''x'' \<mapsto> write_X]\<rparr>"



definition engine_v :: "(nat, string) Substituter" where
  "engine_v =
     (case assign_value put_str ''v'' 0 (Substituter_new False) of
        Inr s \<Rightarrow> s
      | Inl _ \<Rightarrow> Substituter_new False)"

text \<open>
  Three context classes for field bindings: \<open>CtxA\<close> and \<open>CtxB\<close> derive from \<open>Base\<close>, so
  a pointer to either converts to a pointer to \<open>Base\<close>.
\<close>

datatype ctype = CtxA | CtxB | Base

definition derives :: "ctype \<Rightarrow> ctype \<Rightarrow> bool" where
  "derives A T = (A = T \<or> T = Base)"

text \<open>The text of a braced reference to \<open>name\<close>: marker, opening brace, name, closing brace.\<close>

definition braced_ref :: "string \<Rightarrow> string" where
  "braced_ref name = CHR ''@'' # CHR ''{'' # name @ ''}''"

text \<open>
  \<open>parse\<close> called as in \<open>Substituter::expand\<close>, with a default-constructed template:
  what it returns and the template afterwards.
\<close>

definition compile :: "('a, 'v) Substituter \<Rightarrow> string \<Rightarrow> bool \<times> ('a, 'v) Template" where
  "compile s text = (case parse s text Template_new [] of (ok, templ, lg) \<Rightarrow> (ok, templ))"

text \<open>The offsets of a template's substitutions and the names they refer to.\<close>

definition spans :: "('a, 'v) Template \<Rightarrow> (nat \<times> nat \<times> string option) list" where
  "spans templ = map (\<lambda>x. (s_begin x, s_end x, map_option fst (var_def x))) (m_substitutions templ)"


subsection \<open>Parsing and rendering as the specification describes them\<close>

text \<open>
  A second description of the parser and of the expansion, written from the
  specification and not from the code, to compare the code with. The text is cut into
  tokens from left to right by the rules of the specification's section on the parser:
  a marker as the very last byte (rule 2); a marker and an opening brace with a closing
  brace further on, a braced reference whose name is the bytes between the braces, or
  without one, after which the scan resumes just past the opening brace (rule 3); a
  marker and any other character, a reference to the variable of that name (rule 4); a
  marker and a marker, the escape (rule 5); every other byte is literal text (rule 1).
\<close>

datatype token =
    Chr char
  | Esc
  | Braced string
  | Short char
  | Lone_marker
  | Open_brace

function spec_tokens :: "string \<Rightarrow> token list" where
  "spec_tokens [] = []"
| "spec_tokens [c] = (if c = CHR ''@'' then [Lone_marker] else [Chr c])"
| "spec_tokens (c # d # rest) =
     (if c \<noteq> CHR ''@'' then Chr c # spec_tokens (d # rest)
      else if d = CHR ''@'' then Esc # spec_tokens rest
      else if d = CHR ''{'' then
        (if CHR ''}'' \<in> set rest then
           Braced (takeWhile (\<lambda>x. x \<noteq> CHR ''}'') rest)
           # spec_tokens (tl (dropWhile (\<lambda>x. x \<noteq> CHR ''}'') rest))
         else Open_brace # spec_tokens rest)
      else Short d # spec_tokens rest)"
  by pat_completeness auto

termination
proof (relation "measure length")
  fix c d :: char and rest :: string
  have "length (dropWhile (\<lambda>x. x \<noteq> CHR ''}'') rest) \<le> length rest"
    by (rule length_dropWhile_le)
  then show "(tl (dropWhile (\<lambda>x. x \<noteq> CHR ''}'') rest), c # d # rest) \<in> measure length"
    by simp
qed simp_all

text \<open>The bytes of a token in the text, and the variable name of a reference.\<close>

fun raw :: "token \<Rightarrow> string" where
  "raw (Chr c) = [c]"
| "raw Esc = ''@@''"
| "raw (Braced name) = braced_ref name"
| "raw (Short c) = [CHR ''@'', c]"
| "raw Lone_marker = ''@''"
| "raw Open_brace = [CHR ''@'', CHR ''{'']"

fun ref_name :: "token \<Rightarrow> string option" where
  "ref_name (Braced name) = Some name"
| "ref_name (Short c) = Some [c]"
| "ref_name t = None"

text \<open>
  What a token stands for in an engine: the escape is a substitution without variable
  (rule 5), a reference to a defined variable is a substitution with it (rule 7), and
  for everything else no substitution is recorded (rules 3 and 6).
\<close>

datatype ('a, 'v) meaning = Literal | Marker | Variable string "('a, 'v) EvalFunc"

fun meaning_of :: "('a, 'v) Substituter \<Rightarrow> token \<Rightarrow> ('a, 'v) meaning" where
  "meaning_of s (Chr c) = Literal"
| "meaning_of s Esc = Marker"
| "meaning_of s (Braced name) =
     (case m_variables s name of None \<Rightarrow> Literal | Some f \<Rightarrow> Variable name f)"
| "meaning_of s (Short c) =
     (case m_variables s [c] of None \<Rightarrow> Literal | Some f \<Rightarrow> Variable [c] f)"
| "meaning_of s Lone_marker = Literal"
| "meaning_of s Open_brace = Literal"

text \<open>
  The diagnostics: an unterminated marker, an unterminated braced reference, and an
  undefined variable with its name and the text of the reference (rules 2, 3 and 6).
\<close>

fun spec_error :: "('a, 'v) Substituter \<Rightarrow> token \<Rightarrow> log_entry list" where
  "spec_error s (Chr c) = []"
| "spec_error s Esc = []"
| "spec_error s (Braced name) =
     (case m_variables s name of
        None \<Rightarrow> [log_undefined s name (raw (Braced name))]
      | Some f \<Rightarrow> [])"
| "spec_error s (Short c) =
     (case m_variables s [c] of
        None \<Rightarrow> [log_undefined s [c] (raw (Short c))]
      | Some f \<Rightarrow> [])"
| "spec_error s Lone_marker = [log_unterminated_marker s]"
| "spec_error s Open_brace = [log_unterminated_brace s]"

definition spec_errors :: "('a, 'v) Substituter \<Rightarrow> string \<Rightarrow> log_entry list" where
  "spec_errors s text = concat (map (spec_error s) (spec_tokens text))"

text \<open>
  The substitutions, in the order of the text: each spans the bytes of its token, from
  the offset of the marker to the offset where the scan resumes (rules 5, 7 and 8).
\<close>

fun spec_spans :: "('a, 'v) Substituter \<Rightarrow> nat \<Rightarrow> token list \<Rightarrow> ('a, 'v) Substitution list" where
  "spec_spans s off [] = []"
| "spec_spans s off (t # ts) =
     (case meaning_of s t of
        Literal \<Rightarrow> spec_spans s (off + length (raw t)) ts
      | Marker \<Rightarrow>
          \<lparr>s_begin = off, s_end = off + length (raw t), var_def = None\<rparr>
          # spec_spans s (off + length (raw t)) ts
      | Variable name f \<Rightarrow>
          \<lparr>s_begin = off, s_end = off + length (raw t), var_def = Some (name, f)\<rparr>
          # spec_spans s (off + length (raw t)) ts)"

definition spec_substitutions :: "('a, 'v) Substituter \<Rightarrow> string \<Rightarrow> ('a, 'v) Substitution list" where
  "spec_substitutions s text = spec_spans s 0 (spec_tokens text)"

text \<open>
  The rendering of the specification's section on the compiled template: the literal
  text \<open>lit\<close> met since the last substitution is written in one insertion before the
  next substitution and at the end; a substitution without variable writes one marker;
  a substitution with a variable runs its evaluator on the store and the context
  arguments and then sets the flags of the stream back to \<open>fl\<close>. A token for which no
  substitution is recorded is literal text, with the bytes it has in the text.
  \<open>rendering\<close> does this with the flags found on entry and sets them again when a
  write or an evaluator throws.
\<close>

fun spec_render ::
  "nat \<Rightarrow> ('a, 'v) Substituter \<Rightarrow> ('a \<Rightarrow> 'v) \<Rightarrow> 'v list \<Rightarrow> string \<Rightarrow> token list \<Rightarrow> ostream
     \<Rightarrow> ostream thrown" where
  "spec_render fl s store arg lit [] out = put_str lit out"
| "spec_render fl s store arg lit (t # ts) out =
     (case meaning_of s t of
        Literal \<Rightarrow> spec_render fl s store arg (lit @ raw t) ts out
      | Marker \<Rightarrow>
          and_then (put_str lit out) (\<lambda>out1.
          and_then (put_str ''@'' out1) (\<lambda>out2. spec_render fl s store arg [] ts out2))
      | Variable name f \<Rightarrow>
          and_then (put_str lit out) (\<lambda>out1.
          and_then (f store out1 arg) (\<lambda>out2.
            spec_render fl s store arg [] ts (out2\<lparr>flags := fl\<rparr>))))"

definition rendering ::
  "('a, 'v) Substituter \<Rightarrow> token list \<Rightarrow> ('a \<Rightarrow> 'v) \<Rightarrow> 'v list \<Rightarrow> ostream \<Rightarrow> ostream thrown" where
  "rendering s ts store arg out =
     (case spec_render (flags out) s store arg [] ts out of
        (Some e, out') \<Rightarrow> (Some e, out'\<lparr>flags := flags out\<rparr>)
      | (None, out') \<Rightarrow> (None, out'))"

subsection \<open>Evaluators run with given flags\<close>


text \<open>A substitution moved \<open>k\<close> bytes to the right; used to relate a text to its parts.\<close>

definition shift_span :: "nat \<Rightarrow> ('a, 'v) Substitution \<Rightarrow> ('a, 'v) Substitution" where
  "shift_span k x = x\<lparr>s_begin := k + s_begin x, s_end := k + s_end x\<rparr>"

text \<open>What an iteration of the expansion loop does once the literal text is written.\<close>

definition substitute ::
  "nat \<Rightarrow> ('a \<Rightarrow> 'v) \<Rightarrow> 'v list \<Rightarrow> ('a, 'v) Substitution \<Rightarrow> ostream \<Rightarrow> ostream thrown" where
  "substitute fl store arg subst out1 =
     (case var_def subst of
        Some (name, eval_func) \<Rightarrow>
          and_then (eval_func store out1 arg) (\<lambda>out2. (None, out2\<lparr>flags := fl\<rparr>))
      | None \<Rightarrow> put_str ''@'' out1)"


subsection \<open>The loop of the parser as a recursive scan\<close>

text \<open>
  \<open>scan\<close> collects what the iterations of the loop starting at \<open>cur\<close> log and push,
  without the accumulators; \<open>parse_loop_scan\<close> below relates the two.
\<close>

function scan ::
  "('a, 'v) Substituter \<Rightarrow> string \<Rightarrow> nat \<Rightarrow> log_entry list \<times> ('a, 'v) Substitution list" where
  "scan s text cur =
     (case find_char text CHR ''@'' cur of
        None \<Rightarrow> ([], [])
      | Some i \<Rightarrow>
          if i + 1 = length text then ([log_unterminated_marker s], [])
          else
            (case reference_at text i of
               None \<Rightarrow> (case scan s text (i + 2) of (L, S) \<Rightarrow> (log_unterminated_brace s # L, S))
             | Some (var_name, cur') \<Rightarrow>
                 (case scan s text cur' of (L, S) \<Rightarrow>
                    if text ! (i + 1) \<noteq> CHR ''@'' then
                      (case m_variables s var_name of
                         None \<Rightarrow> (log_undefined s var_name (substr_view text i (cur' - i)) # L, S)
                       | Some func \<Rightarrow>
                           (L, \<lparr>s_begin = i, s_end = cur', var_def = Some (var_name, func)\<rparr> # S))
                    else (L, \<lparr>s_begin = i, s_end = cur', var_def = None\<rparr> # S))))"
  by pat_completeness auto

termination
proof (relation "measure (\<lambda>(s, text, cur). Suc (length text) - cur)")
  show "wf (measure (\<lambda>(s, text, cur). Suc (length text) - cur))"
    by simp
qed (use find_char_bounds reference_at_bounds in \<open>fastforce\<close>)+

declare scan.simps [simp del]

lemma parse_loop_scan:
  "parse_loop s text lg err subs cur =
     (lg @ fst (scan s text cur), err \<or> fst (scan s text cur) \<noteq> [], subs @ snd (scan s text cur))"
proof (induction s "text" lg err subs cur rule: parse_loop.induct)
  case (1 s t lg err subs cur)
  show ?case
    apply (subst parse_loop.simps)
    apply (subst (1 2 3) scan.simps)
    apply (simp add: 1 del: add_2_eq_Suc' add_2_eq_Suc split: option.splits prod.splits)
    done
qed

lemma parse_scan:
  "parse s text templ lg =
     (if fst (scan s text 0) \<noteq> [] \<and> \<not> m_lenient s then (False, templ, lg @ fst (scan s text 0))
      else (True, \<lparr>m_text = text, m_substitutions = snd (scan s text 0)\<rparr>, lg @ fst (scan s text 0)))"
  by (simp add: parse_def parse_loop_scan)

text \<open>The diagnostics that parsing \<open>text\<close> hands to the logger, in order.\<close>

definition parse_errors :: "('a, 'v) Substituter \<Rightarrow> string \<Rightarrow> log_entry list" where
  "parse_errors s text = fst (parse_loop s text [] False [] 0)"

lemma parse_errors_scan: "parse_errors s text = fst (scan s text 0)"
  by (simp add: parse_errors_def parse_loop_scan)

text \<open>One equation for each way an iteration of the loop can go.\<close>

lemma scan_none:
  "find_char text CHR ''@'' cur = None \<Longrightarrow> scan s text cur = ([], [])"
  by (subst scan.simps) simp

lemma scan_end:
  "find_char text CHR ''@'' cur = Some i \<Longrightarrow> i + 1 = length text
   \<Longrightarrow> scan s text cur = ([log_unterminated_marker s], [])"
  by (subst scan.simps) simp

lemma scan_brace:
  "find_char text CHR ''@'' cur = Some i \<Longrightarrow> i + 1 \<noteq> length text \<Longrightarrow> reference_at text i = None
   \<Longrightarrow> scan s text cur = (log_unterminated_brace s # fst (scan s text (i + 2)), snd (scan s text (i + 2)))"
  by (subst scan.simps) (simp add: case_prod_beta)

lemma scan_undefined:
  "find_char text CHR ''@'' cur = Some i \<Longrightarrow> i + 1 \<noteq> length text
   \<Longrightarrow> reference_at text i = Some (n, c) \<Longrightarrow> text ! (i + 1) \<noteq> CHR ''@'' \<Longrightarrow> m_variables s n = None
   \<Longrightarrow> scan s text cur =
         (log_undefined s n (substr_view text i (c - i)) # fst (scan s text c), snd (scan s text c))"
  by (subst scan.simps) (simp add: case_prod_beta)

lemma scan_resolved:
  "find_char text CHR ''@'' cur = Some i \<Longrightarrow> i + 1 \<noteq> length text
   \<Longrightarrow> reference_at text i = Some (n, c) \<Longrightarrow> text ! (i + 1) \<noteq> CHR ''@'' \<Longrightarrow> m_variables s n = Some f
   \<Longrightarrow> scan s text cur =
         (fst (scan s text c), \<lparr>s_begin = i, s_end = c, var_def = Some (n, f)\<rparr> # snd (scan s text c))"
  by (subst scan.simps) (simp add: case_prod_beta)

lemma scan_escape:
  "find_char text CHR ''@'' cur = Some i \<Longrightarrow> i + 1 \<noteq> length text
   \<Longrightarrow> reference_at text i = Some (n, c) \<Longrightarrow> text ! (i + 1) = CHR ''@''
   \<Longrightarrow> scan s text cur =
         (fst (scan s text c), \<lparr>s_begin = i, s_end = c, var_def = None\<rparr> # snd (scan s text c))"
  by (subst scan.simps) (simp add: case_prod_beta)

lemma scan_cases [case_names none marker brace undefined resolved escape]:
  obtains
    "find_char t CHR ''@'' cur = None"
  | i where "find_char t CHR ''@'' cur = Some i" "i + 1 = length t"
  | i where "find_char t CHR ''@'' cur = Some i" "i + 1 \<noteq> length t" "reference_at t i = None"
  | i n c where "find_char t CHR ''@'' cur = Some i" "i + 1 \<noteq> length t"
      "reference_at t i = Some (n, c)" "t ! (i + 1) \<noteq> CHR ''@''" "m_variables s n = None"
  | i n c f where "find_char t CHR ''@'' cur = Some i" "i + 1 \<noteq> length t"
      "reference_at t i = Some (n, c)" "t ! (i + 1) \<noteq> CHR ''@''" "m_variables s n = Some f"
  | i n c where "find_char t CHR ''@'' cur = Some i" "i + 1 \<noteq> length t"
      "reference_at t i = Some (n, c)" "t ! (i + 1) = CHR ''@''"
  by (cases "find_char t CHR ''@'' cur"; cases "reference_at t (the (find_char t CHR ''@'' cur))";
      cases "m_variables s (fst (the (reference_at t (the (find_char t CHR ''@'' cur)))))") 
     (auto, (metis)+)

lemma scan_spans:
  "(\<forall>x\<in>set (snd (scan s text cur)). cur \<le> s_begin x \<and> s_begin x + 2 \<le> s_end x \<and> s_end x \<le> length text)
   \<and> sorted_wrt (\<lambda>a b. s_end a \<le> s_begin b) (snd (scan s text cur))"
proof (induction s "text" cur rule: scan.induct)
  case (1 s t cur)
  show ?case
  proof (cases rule: scan_cases [where t = t and cur = cur and s = s])
    case none
    then show ?thesis by (simp add: scan_none)
  next
    case (marker i)
    then show ?thesis by (simp add: scan_end)
  next
    case (brace i)
    from "1.IH"(1) [OF brace] find_char_bounds [OF brace(1)] show ?thesis
      by (auto simp: scan_brace [OF brace])
  next
    case (undefined i n c)
    from "1.IH"(2) [OF undefined(1-3) refl] find_char_bounds [OF undefined(1)]
      reference_at_bounds [OF undefined(3)] undefined(2)
    show ?thesis
      by (auto simp: scan_undefined [OF undefined])
  next
    case (resolved i n c f)
    from "1.IH"(2) [OF resolved(1-3) refl] find_char_bounds [OF resolved(1)]
      reference_at_bounds [OF resolved(3)] resolved(2)
    show ?thesis
      by (auto simp: scan_resolved [OF resolved])
  next
    case (escape i n c)
    from "1.IH"(2) [OF escape(1-3) refl] find_char_bounds [OF escape(1)]
      reference_at_bounds [OF escape(3)] escape(2)
    show ?thesis
      by (auto simp: scan_escape [OF escape])
  qed
qed

lemma scan_log_kinds:
  "\<forall>e\<in>set (fst (scan s text cur)).
     e = log_unterminated_marker s \<or> e = log_unterminated_brace s \<or> (\<exists>n x. e = log_undefined s n x)"
proof (induction s "text" cur rule: scan.induct)
  case (1 s t cur)
  show ?case
  proof (cases rule: scan_cases [where t = t and cur = cur and s = s])
    case none
    then show ?thesis by (simp add: scan_none)
  next
    case (marker i)
    then show ?thesis by (simp add: scan_end)
  next
    case (brace i)
    from "1.IH"(1) [OF brace] show ?thesis
      by (auto simp: scan_brace [OF brace])
  next
    case (undefined i n c)
    from "1.IH"(2) [OF undefined(1-3) refl] show ?thesis
      by (auto simp: scan_undefined [OF undefined])
  next
    case (resolved i n c f)
    from "1.IH"(2) [OF resolved(1-3) refl] show ?thesis
      by (auto simp: scan_resolved [OF resolved])
  next
    case (escape i n c)
    from "1.IH"(2) [OF escape(1-3) refl] show ?thesis
      by (auto simp: scan_escape [OF escape])
  qed
qed

text \<open>The selector that \<open>FindArg1\<close> computes.\<close>

lemma FindArg1_None_iff: "FindArg1 conv T As = None \<longleftrightarrow> (\<forall>A\<in>set As. \<not> conv A T)"
proof (induction As)
  case Nil
  show ?case by simp
next
  case (Cons A B)
  then show ?case by (cases "conv A T") simp_all
qed

lemma FindArg1_Some_nth:
  "FindArg1 conv T As = Some sel \<Longrightarrow> length args = length As
   \<Longrightarrow> sel args = args ! length (takeWhile (\<lambda>A. \<not> conv A T) As)"
proof (induction As arbitrary: sel args)
  case Nil
  then show ?case by simp
next
  case (Cons A B)
  from Cons.prems(2) obtain a b where args: "args = a # b" and len: "length b = length B"
    by (cases args) auto
  show ?case
  proof (cases "conv A T")
    case True
    with Cons.prems args show ?thesis by auto
  next
    case False
    with Cons.prems obtain r where r: "FindArg1 conv T B = Some r" and sel: "sel = (\<lambda>args. r (tl args))"
      by auto
    from Cons.IH [OF r len] False args sel show ?thesis by simp
  qed
qed

text \<open>Sequencing, and the flags along the expansion loop.\<close>

lemma and_then_simps [simp]:
  "and_then (None, out) g = g out"
  "and_then (Some e, out) g = (Some e, out)"
  by (simp_all add: and_then_def)






subsection \<open>Texts put together\<close>

text \<open>
  Searching, scanning and expanding a text \<open>pre @ post\<close> in terms of its parts.
\<close>

lemma find_char_shift:
  "find_char (pre @ post) c (length pre + p) = map_option (\<lambda>i. length pre + i) (find_char post c p)"
  by (simp add: find_char_def Let_def)



lemma reference_at_shift:
  assumes "i + 1 < length post"
  shows "reference_at (pre @ post) (length pre + i)
           = map_option (\<lambda>(n, c). (n, length pre + c)) (reference_at post i)"
proof -
  have n: "(pre @ post) ! (length pre + i + 1) = post ! (i + 1)"
    by (simp add: nth_append)
  have f: "find_char (pre @ post) CHR ''}'' (length pre + i + 2)
             = map_option (\<lambda>i. length pre + i) (find_char post CHR ''}'' (i + 2))"
    using find_char_shift [of pre post "CHR ''}''" "i + 2"] by (simp add: add.assoc)
  show ?thesis
    unfolding reference_at_def n f
    using find_char_bounds [of post "CHR ''}''" "i + 2"]
    by (auto simp: substr_view_def add.assoc split: option.splits)
qed


lemma scan_shift:
  "scan s (pre @ post) (length pre + p)
     = (fst (scan s post p), map (shift_span (length pre)) (snd (scan s post p)))"
proof (induction s post p rule: scan.induct)
  case (1 s t cur)
  let ?k = "length pre"
  show ?case
  proof (cases rule: scan_cases [where t = t and cur = cur and s = s])
    case none
    then have "find_char (pre @ t) CHR ''@'' (?k + cur) = None"
      by (simp add: find_char_shift)
    with none show ?thesis by (simp add: scan_none)
  next
    case (marker i)
    then have "find_char (pre @ t) CHR ''@'' (?k + cur) = Some (?k + i)" "?k + i + 1 = length (pre @ t)"
      by (simp_all add: find_char_shift)
    with marker show ?thesis by (simp add: scan_end)
  next
    case (brace i)
    from find_char_bounds [OF brace(1)] brace(2) have i1: "i + 1 < length t" by simp
    have F: "find_char (pre @ t) CHR ''@'' (?k + cur) = Some (?k + i)"
      and N: "?k + i + 1 \<noteq> length (pre @ t)"
      and R: "reference_at (pre @ t) (?k + i) = None"
      using brace by (simp_all add: find_char_shift reference_at_shift [OF i1])
    have "scan s (pre @ t) (?k + i + 2) = scan s (pre @ t) (?k + (i + 2))"
      by (simp add: add.assoc)
    with "1.IH"(1) [OF brace] show ?thesis
      by (simp add: scan_brace [OF F N R] scan_brace [OF brace])
  next
    case (undefined i n c)
    from find_char_bounds [OF undefined(1)] undefined(2) have i1: "i + 1 < length t" by simp
    from reference_at_bounds [OF undefined(3) i1] have c: "i + 2 \<le> c" by simp
    have F: "find_char (pre @ t) CHR ''@'' (?k + cur) = Some (?k + i)"
      and N: "?k + i + 1 \<noteq> length (pre @ t)"
      and R: "reference_at (pre @ t) (?k + i) = Some (n, ?k + c)"
      and A: "(pre @ t) ! (?k + i + 1) \<noteq> CHR ''@''"
      using undefined by (simp_all add: find_char_shift reference_at_shift [OF i1] nth_append)
    have X: "\<And>m. substr_view (pre @ t) (?k + i) m = substr_view t i m"
      by (simp add: substr_view_def)
    from "1.IH"(2) [OF undefined(1-3) refl] show ?thesis
      by (simp add: scan_undefined [OF F N R A undefined(5)] scan_undefined [OF undefined] X)
  next
    case (resolved i n c f)
    from find_char_bounds [OF resolved(1)] resolved(2) have i1: "i + 1 < length t" by simp
    have F: "find_char (pre @ t) CHR ''@'' (?k + cur) = Some (?k + i)"
      and N: "?k + i + 1 \<noteq> length (pre @ t)"
      and R: "reference_at (pre @ t) (?k + i) = Some (n, ?k + c)"
      and A: "(pre @ t) ! (?k + i + 1) \<noteq> CHR ''@''"
      using resolved by (simp_all add: find_char_shift reference_at_shift [OF i1] nth_append)
    from "1.IH"(2) [OF resolved(1-3) refl] show ?thesis
      by (simp add: scan_resolved [OF F N R A resolved(5)] scan_resolved [OF resolved] shift_span_def)
  next
    case (escape i n c)
    from find_char_bounds [OF escape(1)] escape(2) have i1: "i + 1 < length t" by simp
    have F: "find_char (pre @ t) CHR ''@'' (?k + cur) = Some (?k + i)"
      and N: "?k + i + 1 \<noteq> length (pre @ t)"
      and R: "reference_at (pre @ t) (?k + i) = Some (n, ?k + c)"
      and A: "(pre @ t) ! (?k + i + 1) = CHR ''@''"
      using escape by (simp_all add: find_char_shift reference_at_shift [OF i1] nth_append)
    from "1.IH"(2) [OF escape(1-3) refl] show ?thesis
      by (simp add: scan_escape [OF F N R A] scan_escape [OF escape] shift_span_def)
  qed
qed

lemma scan_find_cong:
  "find_char t CHR ''@'' p = find_char t CHR ''@'' q \<Longrightarrow> scan s t p = scan s t q"
  by (subst (1 2) scan.simps) simp

lemma and_then_assoc:
  "and_then (and_then r f) g = and_then r (\<lambda>out. and_then (f out) g)"
  by (cases r; cases "fst r") auto

lemma and_then_cong_normal:
  "(\<And>out. r = (None, out) \<Longrightarrow> g out = g' out) \<Longrightarrow> and_then r g = and_then r g'"
  by (cases r; cases "fst r") auto

lemma shift_span_simps [simp]:
  "s_begin (shift_span k x) = k + s_begin x"
  "s_end (shift_span k x) = k + s_end x"
  "var_def (shift_span k x) = var_def x"
  by (simp_all add: shift_span_def)


lemma size_sub_le: "b \<le> a \<Longrightarrow> size_sub a b = a - b"
  by (simp add: size_sub_def)




lemma expand_loop_Cons:
  "expand_loop fl text store arg (x # xs) cur out =
     (case substr text cur (size_sub (s_begin x) cur) of
        Inl e \<Rightarrow> (Some e, out)
      | Inr lit \<Rightarrow>
          and_then (put_str lit out) (\<lambda>out1.
          and_then (substitute fl store arg x out1) (expand_loop fl text store arg xs (s_end x))))"
  by (simp add: substitute_def split: sum.splits)

lemma substitute_shift [simp]:
  "substitute fl store arg (shift_span k x) = substitute fl store arg x"
  by (rule ext) (simp add: substitute_def)


lemma scan_escape_head:
  "scan s (''@@'' @ post) 0
     = (fst (scan s post 0),
        \<lparr>s_begin = 0, s_end = 2, var_def = None\<rparr> # map (shift_span 2) (snd (scan s post 0)))"
proof -
  let ?t = "''@@'' @ post"
  have F: "find_char ?t CHR ''@'' 0 = Some 0"
    by (simp add: find_char_def)
  have N: "0 + 1 \<noteq> length ?t" by simp
  have R: "reference_at ?t 0 = Some (''@'', 2)"
    by (simp add: reference_at_def substr_view_def)
  have A: "?t ! (0 + 1) = CHR ''@''" by simp
  from scan_shift [of s "''@@''" post 0] have "scan s ?t 2
      = (fst (scan s post 0), map (shift_span 2) (snd (scan s post 0)))"
    by (simp add: numeral_2_eq_2)
  with scan_escape [OF F N R A, of s] show ?thesis by (simp add: numeral_2_eq_2)
qed

lemma reference_at_braced:
  assumes "CHR ''}'' \<notin> set name"
  shows "reference_at (braced_ref name @ post) 0 = Some (name, length (braced_ref name))"
proof -
  from assms have "\<And>x. x \<in> set name \<Longrightarrow> x \<noteq> CHR ''}''"
    by auto
  then have "takeWhile (\<lambda>x. x \<noteq> CHR ''}'') (name @ CHR ''}'' # post) = name"
    by simp
  then have "find_char (braced_ref name @ post) CHR ''}'' (0 + 2) = Some (2 + length name)"
    by (simp add: find_char_def braced_ref_def numeral_2_eq_2)
  then show ?thesis
    by (simp add: reference_at_def braced_ref_def substr_view_def)
qed

lemma scan_undefined_braced:
  assumes "CHR ''}'' \<notin> set name" and "m_variables s name = None"
  shows "scan s (braced_ref name @ post) 0
     = (log_undefined s name (braced_ref name) # fst (scan s post 0),
        map (shift_span (length (braced_ref name))) (snd (scan s post 0)))"
proof -
  let ?t = "braced_ref name @ post"
  have F: "find_char ?t CHR ''@'' 0 = Some 0"
    by (simp add: find_char_def braced_ref_def)
  have N: "0 + 1 \<noteq> length ?t" by (simp add: braced_ref_def)
  note R = reference_at_braced [OF assms(1), of post]
  have A: "?t ! (0 + 1) \<noteq> CHR ''@''" by (simp add: braced_ref_def)
  have X: "substr_view ?t 0 (length (braced_ref name) - 0) = braced_ref name"
    by (simp add: substr_view_def)
  from scan_shift [of s "braced_ref name" post 0] scan_undefined [OF F N R A assms(2)] X
  show ?thesis by simp
qed

lemma scan_undefined_short:
  assumes "c \<noteq> CHR ''{''" and "c \<noteq> CHR ''@''" and "m_variables s [c] = None"
  shows "scan s ([CHR ''@'', c] @ post) 0
     = (log_undefined s [c] [CHR ''@'', c] # fst (scan s post 0),
        map (shift_span 2) (snd (scan s post 0)))"
proof -
  let ?t = "[CHR ''@'', c] @ post"
  have F: "find_char ?t CHR ''@'' 0 = Some 0"
    by (simp add: find_char_def)
  have N: "0 + 1 \<noteq> length ?t" by simp
  have R: "reference_at ?t 0 = Some ([c], 2)"
    using assms(1) by (simp add: reference_at_def substr_view_def)
  have A: "?t ! (0 + 1) \<noteq> CHR ''@''" using assms(2) by simp
  have X: "substr_view ?t 0 (2 - 0) = [CHR ''@'', c]"
    by (simp add: substr_view_def)
  from scan_shift [of s "[CHR ''@'', c]" post 0] scan_undefined [OF F N R A assms(3)] X
  show ?thesis by (simp add: numeral_2_eq_2)
qed


lemma compile_scan:
  "compile s text =
     (if fst (scan s text 0) \<noteq> [] \<and> \<not> m_lenient s then (False, Template_new)
      else (True, \<lparr>m_text = text, m_substitutions = snd (scan s text 0)\<rparr>))"
  by (simp add: compile_def parse_scan)




lemma scan_undefined_head:
  assumes "m_variables s name = None"
    and "ref = braced_ref name \<and> CHR ''}'' \<notin> set name
         \<or> (\<exists>c. ref = [CHR ''@'', c] \<and> name = [c] \<and> c \<noteq> CHR ''{'' \<and> c \<noteq> CHR ''@'')"
  shows "scan s (ref @ post) 0
     = (log_undefined s name ref # fst (scan s post 0),
        map (shift_span (length ref)) (snd (scan s post 0)))"
  using assms(2)
proof (elim disjE conjE exE)
  assume "ref = braced_ref name" and "CHR ''}'' \<notin> set name"
  with scan_undefined_braced [OF _ assms(1), of post] show ?thesis by simp
next
  fix c
  assume "ref = [CHR ''@'', c]" and "name = [c]" and "c \<noteq> CHR ''{''" and "c \<noteq> CHR ''@''"
  with scan_undefined_short [of c s post] assms(1) show ?thesis by simp
qed

text \<open>A template that is one braced reference to a value binding.\<close>

lemma scan_Nil: "scan s [] 0 = ([], [])"
  by (simp add: scan_none find_char_def)

lemma scan_resolved_braced:
  assumes "CHR ''}'' \<notin> set name" and "m_variables s name = Some f"
  shows "scan s (braced_ref name) 0
     = ([], [\<lparr>s_begin = 0, s_end = length (braced_ref name), var_def = Some (name, f)\<rparr>])"
proof -
  let ?t = "braced_ref name @ []"
  have F: "find_char ?t CHR ''@'' 0 = Some 0"
    by (simp add: find_char_def braced_ref_def)
  have N: "0 + 1 \<noteq> length ?t" by (simp add: braced_ref_def)
  note R = reference_at_braced [OF assms(1), of "[]"]
  have A: "?t ! (0 + 1) \<noteq> CHR ''@''" by (simp add: braced_ref_def)
  from scan_shift [of s "braced_ref name" "[]" 0] scan_resolved [OF F N R A assms(2)]
  show ?thesis by (simp add: scan_Nil)
qed

lemma value_binding_expand_str:
  assumes "assign_value ins name var s = Inr s'" and "CHR ''}'' \<notin> set name"
  shows "Template_expand_str global (snd (compile s' (braced_ref name))) store arg
           = (case ins (store var) (imbue classic (ostringstream global)) of
                (Some e, out) \<Rightarrow> Inl e
              | (None, out) \<Rightarrow>
                  if bad out then (if throwing out then Inl ios_failure else Inr (buf out))
                  else Inr (buf out @ replicate (width out) (fill out)))"
proof -
  let ?f = "\<lambda>store out arg. ins (store var) out"
  let ?o = "imbue classic (ostringstream global)"
  from assms(1) have v: "m_variables s' name = Some ?f"
    by (auto simp: assign_value_def assign_func_def Substituter_define_def split: option.splits)
  have c: "compile s' (braced_ref name)
      = (True, \<lparr>m_text = braced_ref name,
                m_substitutions = [\<lparr>s_begin = 0, s_end = length (braced_ref name),
                                    var_def = Some (name, ?f)\<rparr>]\<rparr>)"
    by (simp add: compile_scan scan_resolved_braced [OF assms(2) v])
  have g: "put_str [] ?o = (None, ?o)"
    by (simp add: imbue_def ostringstream_def put_str_def padded_def)
  obtain r out1 where i: "ins (store var) ?o = (r, out1)" by (cases "ins (store var) ?o")
  show ?thesis
  proof (cases r)
    case None
    with i g show ?thesis
      by (simp add: c Template_expand_str_def Template_expand_def substr_def substr_view_def
          substr_rest_def size_sub_def) (simp add: put_str_def padded_def)
  next
    case (Some e)
    with i g show ?thesis
      by (simp add: c Template_expand_str_def Template_expand_def substr_def substr_view_def
          substr_rest_def size_sub_def)
  qed
qed

subsection \<open>The code against the specification\<close>

text \<open>
  The scan finds the diagnostics and the substitutions of the specification, and the
  expansion loop over these substitutions is the rendering.
\<close>

lemma raw_spec_tokens: "concat (map raw (spec_tokens text)) = text"
proof (induction "text" rule: spec_tokens.induct)
  case 1
  show ?case by simp
next
  case (2 c)
  show ?case by simp
next
  case (3 c d rest)
  let ?P = "\<lambda>x. x \<noteq> CHR ''}''"
  show ?case
  proof (cases "c = CHR ''@'' \<and> d = CHR ''{'' \<and> CHR ''}'' \<in> set rest")
    case True
    then have "dropWhile ?P rest \<noteq> []" by (simp add: dropWhile_eq_Nil_conv)
    moreover from this have "hd (dropWhile ?P rest) = CHR ''}''"
      using hd_dropWhile [of ?P rest] by simp
    ultimately have "dropWhile ?P rest = CHR ''}'' # tl (dropWhile ?P rest)"
      by (cases "dropWhile ?P rest") simp_all
    then have "takeWhile ?P rest @ CHR ''}'' # tl (dropWhile ?P rest) = rest"
      using takeWhile_dropWhile_id [of ?P rest] by simp
    with True "3.IH"(3) show ?thesis
      by (simp add: braced_ref_def)
  next
    case False
    with 3 show ?thesis by auto
  qed
qed

lemma spec_spans_shift:
  "map (shift_span k) (spec_spans s off ts) = spec_spans s (k + off) ts"
  by (induction ts arbitrary: off) (simp_all add: shift_span_def add.assoc split: meaning.splits)

lemma scan_literal_head:
  assumes "c \<noteq> CHR ''@''"
  shows "scan s (c # t) 0 = (fst (scan s t 0), map (shift_span 1) (snd (scan s t 0)))"
proof -
  from assms have "find_char (c # t) CHR ''@'' 0 = find_char (c # t) CHR ''@'' 1"
    by (simp add: find_char_def Let_def)
  then have "scan s (c # t) 0 = scan s (c # t) 1"
    by (rule scan_find_cong)
  also have "scan s (c # t) 1 = scan s ([c] @ t) (length [c] + 0)"
    by simp
  also have "\<dots> = (fst (scan s t 0), map (shift_span (length [c])) (snd (scan s t 0)))"
    by (rule scan_shift)
  finally show ?thesis by simp
qed

lemma scan_lone_marker: "scan s [CHR ''@''] 0 = ([log_unterminated_marker s], [])"
proof -
  have "find_char [CHR ''@''] CHR ''@'' 0 = Some 0" by (simp add: find_char_def)
  then show ?thesis by (rule scan_end) simp
qed

lemma scan_open_brace:
  assumes "CHR ''}'' \<notin> set rest"
  shows "scan s (CHR ''@'' # CHR ''{'' # rest) 0
     = (log_unterminated_brace s # fst (scan s rest 0), map (shift_span 2) (snd (scan s rest 0)))"
proof -
  let ?t = "CHR ''@'' # CHR ''{'' # rest"
  have F: "find_char ?t CHR ''@'' 0 = Some 0"
    by (simp add: find_char_def)
  have N: "0 + 1 \<noteq> length ?t" by simp
  from assms have "takeWhile (\<lambda>x. x \<noteq> CHR ''}'') rest = rest"
    by (simp add: takeWhile_eq_all_conv) auto
  then have "length (takeWhile (\<lambda>x. x \<noteq> CHR ''}'') rest) = length rest"
    by (rule arg_cong)
  then have "find_char ?t CHR ''}'' (0 + 2) = None"
    by (simp add: find_char_def Let_def numeral_2_eq_2)
  then have R: "reference_at ?t 0 = None"
    by (simp add: reference_at_def)
  have "scan s ([CHR ''@'', CHR ''{''] @ rest) (length [CHR ''@'', CHR ''{''] + 0)
      = (fst (scan s rest 0), map (shift_span (length [CHR ''@'', CHR ''{''])) (snd (scan s rest 0)))"
    by (rule scan_shift)
  then have "scan s ?t (0 + 2) = (fst (scan s rest 0), map (shift_span 2) (snd (scan s rest 0)))"
    by (simp add: numeral_2_eq_2)
  with scan_brace [OF F N R, of s] show ?thesis by simp
qed

lemma scan_resolved_braced_head:
  assumes "CHR ''}'' \<notin> set name" and "m_variables s name = Some f"
  shows "scan s (braced_ref name @ post) 0
     = (fst (scan s post 0),
        \<lparr>s_begin = 0, s_end = length (braced_ref name), var_def = Some (name, f)\<rparr>
        # map (shift_span (length (braced_ref name))) (snd (scan s post 0)))"
proof -
  let ?t = "braced_ref name @ post"
  have F: "find_char ?t CHR ''@'' 0 = Some 0"
    by (simp add: find_char_def braced_ref_def)
  have N: "0 + 1 \<noteq> length ?t" by (simp add: braced_ref_def)
  note R = reference_at_braced [OF assms(1), of post]
  have A: "?t ! (0 + 1) \<noteq> CHR ''@''" by (simp add: braced_ref_def)
  from scan_shift [of s "braced_ref name" post 0] scan_resolved [OF F N R A assms(2)]
  show ?thesis by simp
qed

lemma scan_resolved_short:
  assumes "c \<noteq> CHR ''{''" and "c \<noteq> CHR ''@''" and "m_variables s [c] = Some f"
  shows "scan s ([CHR ''@'', c] @ post) 0
     = (fst (scan s post 0),
        \<lparr>s_begin = 0, s_end = 2, var_def = Some ([c], f)\<rparr> # map (shift_span 2) (snd (scan s post 0)))"
proof -
  let ?t = "[CHR ''@'', c] @ post"
  have F: "find_char ?t CHR ''@'' 0 = Some 0"
    by (simp add: find_char_def)
  have N: "0 + 1 \<noteq> length ?t" by simp
  have R: "reference_at ?t 0 = Some ([c], 2)"
    using assms(1) by (simp add: reference_at_def substr_view_def)
  have A: "?t ! (0 + 1) \<noteq> CHR ''@''" using assms(2) by simp
  from scan_shift [of s "[CHR ''@'', c]" post 0] scan_resolved [OF F N R A assms(3)]
  show ?thesis by (simp add: numeral_2_eq_2)
qed

lemma braced_split:
  assumes "CHR ''}'' \<in> set rest"
  shows "CHR ''@'' # CHR ''{'' # rest
           = braced_ref (takeWhile (\<lambda>x. x \<noteq> CHR ''}'') rest)
             @ tl (dropWhile (\<lambda>x. x \<noteq> CHR ''}'') rest)"
    and "CHR ''}'' \<notin> set (takeWhile (\<lambda>x. x \<noteq> CHR ''}'') rest)"
proof -
  let ?P = "\<lambda>x. x \<noteq> CHR ''}''"
  from assms have "dropWhile ?P rest \<noteq> []" by (simp add: dropWhile_eq_Nil_conv)
  moreover from this have "hd (dropWhile ?P rest) = CHR ''}''"
    using hd_dropWhile [of ?P rest] by simp
  ultimately have "dropWhile ?P rest = CHR ''}'' # tl (dropWhile ?P rest)"
    by (cases "dropWhile ?P rest") simp_all
  then have "takeWhile ?P rest @ CHR ''}'' # tl (dropWhile ?P rest) = rest"
    using takeWhile_dropWhile_id [of ?P rest] by simp
  then show "CHR ''@'' # CHR ''{'' # rest
           = braced_ref (takeWhile ?P rest) @ tl (dropWhile ?P rest)"
    by (simp add: braced_ref_def)
  show "CHR ''}'' \<notin> set (takeWhile ?P rest)"
    using set_takeWhileD [of "CHR ''}''" ?P rest] by auto
qed

lemma scan_spec:
  "scan s text 0 = (spec_errors s text, spec_substitutions s text)"
proof (induction "text" rule: spec_tokens.induct)
  case 1
  show ?case by (simp add: scan_Nil spec_errors_def spec_substitutions_def)
next
  case (2 c)
  show ?case
  proof (cases "c = CHR ''@''")
    case True
    then show ?thesis by (simp add: scan_lone_marker spec_errors_def spec_substitutions_def)
  next
    case False
    then show ?thesis
      by (simp add: scan_literal_head scan_Nil spec_errors_def spec_substitutions_def)
  qed
next
  case (3 c d rest)
  let ?P = "\<lambda>x. x \<noteq> CHR ''}''"
  consider (lit) "c \<noteq> CHR ''@''"
    | (esc) "c = CHR ''@''" "d = CHR ''@''"
    | (braced) "c = CHR ''@''" "d = CHR ''{''" "CHR ''}'' \<in> set rest"
    | (unclosed) "c = CHR ''@''" "d = CHR ''{''" "CHR ''}'' \<notin> set rest"
    | (short) "c = CHR ''@''" "d \<noteq> CHR ''@''" "d \<noteq> CHR ''{''"
    by blast
  then show ?case
  proof cases
    case lit
    with "3.IH"(1) show ?thesis
      by (simp add: scan_literal_head spec_errors_def spec_substitutions_def
          spec_spans_shift [where off = 0, simplified])
  next
    case esc
    with "3.IH"(2) scan_escape_head [of s rest] show ?thesis
      by (simp add: spec_errors_def spec_substitutions_def numeral_2_eq_2
          spec_spans_shift [where off = 0, simplified])
  next
    case braced
    let ?n = "takeWhile ?P rest"
    let ?r = "tl (dropWhile ?P rest)"
    note sp = braced_split [OF braced(3)]
    from "3.IH"(3) braced have IH: "scan s ?r 0 = (spec_errors s ?r, spec_substitutions s ?r)"
      by simp
    have tk: "spec_tokens (c # d # rest) = Braced ?n # spec_tokens ?r"
      using braced by simp
    show ?thesis
    proof (cases "m_variables s ?n")
      case None
      from scan_undefined_braced [OF sp(2) None, of ?r] IH show ?thesis
        unfolding braced(1,2) sp(1) [symmetric]
        by (simp add: spec_errors_def spec_substitutions_def braced(3) None
            spec_spans_shift [where off = 0, simplified])
    next
      case (Some f)
      from scan_resolved_braced_head [OF sp(2) Some, of ?r] IH show ?thesis
        unfolding braced(1,2) sp(1) [symmetric]
        by (simp add: spec_errors_def spec_substitutions_def braced(3) Some
            spec_spans_shift [where off = 0, simplified])
    qed
  next
    case unclosed
    with "3.IH"(4) scan_open_brace [OF unclosed(3), of s] show ?thesis
      by (simp add: spec_errors_def spec_substitutions_def numeral_2_eq_2
          spec_spans_shift [where off = 0, simplified])
  next
    case short
    show ?thesis
    proof (cases "m_variables s [d]")
      case None
      from scan_undefined_short [OF short(3,2) None, of rest] "3.IH"(5) short show ?thesis
        by (simp add: spec_errors_def spec_substitutions_def None numeral_2_eq_2
            spec_spans_shift [where off = 0, simplified])
    next
      case (Some f)
      from scan_resolved_short [OF short(3,2) Some, of rest] "3.IH"(5) short show ?thesis
        by (simp add: spec_errors_def spec_substitutions_def Some numeral_2_eq_2
            spec_spans_shift [where off = 0, simplified])
    qed
  qed
qed

lemma expand_loop_spec:
  "cur \<le> length before \<Longrightarrow>
   expand_loop fl (before @ concat (map raw ts)) store arg (spec_spans s (length before) ts) cur out
     = spec_render fl s store arg (drop cur before) ts out"
proof (induction ts arbitrary: before cur out)
  case Nil
  then show ?case by (simp add: substr_rest_def)
next
  case (Cons t ts)
  let ?text = "before @ raw t @ concat (map raw ts)"
  have tx: "?text = (before @ raw t) @ concat (map raw ts)" by simp
  have lit: "substr ?text cur (size_sub (length before) cur) = Inr (drop cur before)"
    using Cons.prems by (simp add: substr_def substr_view_def size_sub_le)
  have next_eq: "expand_loop fl ?text store arg (spec_spans s (length before + length (raw t)) ts)
          (length before + length (raw t))
        = spec_render fl s store arg [] ts"
  proof (rule ext)
    fix out
    from Cons.IH [of "length (before @ raw t)" "before @ raw t" out]
    show "expand_loop fl ?text store arg (spec_spans s (length before + length (raw t)) ts)
          (length before + length (raw t)) out = spec_render fl s store arg [] ts out"
      unfolding tx by simp
  qed
  show ?case
  proof (cases "meaning_of s t")
    case Literal
    from Cons.IH [of cur "before @ raw t" out] Cons.prems Literal show ?thesis
      unfolding tx by simp
  next
    case Marker
    then show ?thesis
      by (simp add: expand_loop_Cons lit next_eq substitute_def del: expand_loop.simps(2))
  next
    case (Variable name f)
    then show ?thesis
      by (simp add: expand_loop_Cons lit next_eq substitute_def and_then_assoc
          del: expand_loop.simps(2))
  qed
qed

lemma Template_expand_spec:
  "Template_expand \<lparr>m_text = text, m_substitutions = spec_substitutions s text\<rparr> store arg out
     = rendering s (spec_tokens text) store arg out"
  using expand_loop_spec [of 0 "[]" "flags out" "spec_tokens text" store arg s out]
  by (simp add: Template_expand_def rendering_def spec_substitutions_def raw_spec_tokens)

lemma parse_spec:
  "parse s text templ lg =
     (if spec_errors s text \<noteq> [] \<and> \<not> m_lenient s then (False, templ, lg @ spec_errors s text)
      else (True, \<lparr>m_text = text, m_substitutions = spec_substitutions s text\<rparr>,
            lg @ spec_errors s text))"
  by (simp add: parse_scan scan_spec)

lemma spec_render_chars:
  "spec_render fl s store arg lit (map Chr r @ ts) out = spec_render fl s store arg (lit @ r) ts out"
  by (induction r arbitrary: lit) simp_all

lemma spec_render_literal:
  assumes "meaning_of s t = Literal"
  shows "spec_render fl s store arg lit (before @ t # after) out
           = spec_render fl s store arg lit (before @ map Chr (raw t) @ after) out"
proof (induction before arbitrary: lit out)
  case Nil
  show ?case by (simp add: assms spec_render_chars)
next
  case (Cons u us)
  have "spec_render fl s store arg [] (us @ t # after)
      = spec_render fl s store arg [] (us @ map Chr (raw t) @ after)"
    by (rule ext) (rule Cons.IH)
  with Cons.IH show ?case
    by (simp split: meaning.splits)
qed

lemma rendering_literal:
  "meaning_of s t = Literal
   \<Longrightarrow> rendering s (before @ t # after) store arg out
         = rendering s (before @ map Chr (raw t) @ after) store arg out"
  by (simp add: rendering_def spec_render_literal)

lemma spec_error_Nil_iff:
  "spec_error s t = [] \<longleftrightarrow>
     \<not> (t = Lone_marker \<or> t = Open_brace \<or> (\<exists>n. ref_name t = Some n \<and> m_variables s n = None))"
  by (cases t) (auto split: option.splits)

lemma spec_errors_Nil_iff:
  "spec_errors s text \<noteq> [] \<longleftrightarrow>
     (\<exists>t\<in>set (spec_tokens text).
        t = Lone_marker \<or> t = Open_brace \<or> (\<exists>n. ref_name t = Some n \<and> m_variables s n = None))"
  unfolding spec_errors_def concat_eq_Nil_conv
  using spec_error_Nil_iff [of s] by auto

lemma spec_spans_append:
  "spec_spans s off (ts @ us)
     = spec_spans s off ts @ spec_spans s (off + length (concat (map raw ts))) us"
  by (induction ts arbitrary: off) (simp_all add: add.assoc split: meaning.splits)

lemma spec_spans_bounds:
  "x \<in> set (spec_spans s off ts)
   \<Longrightarrow> off \<le> s_begin x \<and> s_end x \<le> off + length (concat (map raw ts))"
proof (induction ts arbitrary: off)
  case Nil
  then show ?case by simp
next
  case (Cons t ts)
  show ?case
  proof (cases "x \<in> set (spec_spans s (off + length (raw t)) ts)")
    case True
    from Cons.IH [OF True] show ?thesis by simp
  next
    case False
    with Cons.prems show ?thesis
      by (auto split: meaning.splits)
  qed
qed

lemma meaning_of_undefined:
  "ref_name t = Some name \<Longrightarrow> m_variables s name = None
   \<Longrightarrow> meaning_of s t = Literal \<and> spec_error s t = [log_undefined s name (raw t)]"
  by (cases t) auto

subsection \<open>Expansion in two states of the memory\<close>

text \<open>
  The text is read through the view when the template is expanded, not when it is
  parsed: a template object without substitutions expands to what its view shows in the
  memory of the expansion.
\<close>

lemma expand_reads_view:
  "Template_expand_str global (seen_in mem \<lparr>t_text = v, t_substitutions = []\<rparr>) store arg
     = Inr (view_bytes mem v)"
  by (simp add: Template_expand_str_def Template_expand_def seen_in_def substr_rest_def
      put_str_def padded_def imbue_def ostringstream_def)

lemma parse_view_parse:
  "parse_view s mem text templ lg =
     (case parse s (view_bytes mem text) (seen_in mem templ) lg of
        (ok, t, lg') \<Rightarrow>
          (ok, if ok then \<lparr>t_text = text, t_substitutions = m_substitutions t\<rparr> else templ, lg'))"
  by (auto simp: parse_view_def parse_def split: prod.splits)





section \<open>Claims\<close>

subsection \<open>Duplicate definitions\<close>

text \<open>
  C6. Defining a variable under a name that is already defined fails at once, with a
  \<open>std::runtime_error\<close>, whatever the leniency of the engine; this holds for the
  definition itself and for the value binding that goes through it.
\<close>

theorem define_duplicate_fails:
  assumes "name \<in> dom (m_variables s)"
  shows "Substituter_define name func (s\<lparr>m_lenient := lenient\<rparr>) =
           Inl (thrown (runtime_error ''Multiple definitions for same variable name''))
         \<and> assign_func name func (s\<lparr>m_lenient := lenient\<rparr>) =
           Inl (thrown (runtime_error ''Multiple definitions for same variable name''))
         \<and> assign_value ins name var (s\<lparr>m_lenient := lenient\<rparr>) =
           Inl (thrown (runtime_error ''Multiple definitions for same variable name''))"
  using assms
  by (auto simp: Substituter_define_def assign_func_def assign_value_def split: option.splits)

theorem define_duplicate_fails_witness:
  "''x'' \<in> dom (m_variables (engine_x False))
   \<and> Substituter_define ''x'' write_X ((engine_x False)\<lparr>m_lenient := True\<rparr>) =
       Inl (thrown (runtime_error ''Multiple definitions for same variable name''))
   \<and> assign_value put_str ''x'' (0::nat) ((engine_x False)\<lparr>m_lenient := False\<rparr>) =
       Inl (thrown (runtime_error ''Multiple definitions for same variable name''))"
proof -
  have h: "''x'' \<in> dom (m_variables (engine_x False))"
    by (simp add: engine_x_def)
  show ?thesis
    using h define_duplicate_fails [OF h, of write_X True put_str 0]
      define_duplicate_fails [OF h, of write_X False put_str 0]
    by simp
qed

subsection \<open>A failed parse leaves the template alone\<close>

text \<open>
  C9. When \<open>parse\<close> returns \<open>false\<close>, the template object passed to it is what it was
  before the call: text and substitutions are assigned only on success.
\<close>

theorem parse_failure_keeps_template:
  assumes "fst (parse s text templ lg) = False"
  shows "fst (snd (parse s text templ lg)) = templ"
  using assms by (simp add: parse_scan split: if_splits)

theorem parse_failure_keeps_template_witness:
  "fst (parse (engine_x False) (braced_ref ''missing'') \<lparr>m_text = ''old'', m_substitutions = []\<rparr> []) = False
   \<and> fst (snd (parse (engine_x False) (braced_ref ''missing'') \<lparr>m_text = ''old'', m_substitutions = []\<rparr> []))
       = \<lparr>m_text = ''old'', m_substitutions = []\<rparr>"
proof -
  have h: "fst (parse (engine_x False) (braced_ref ''missing'') \<lparr>m_text = ''old'', m_substitutions = []\<rparr> []) = False"
    by code_simp
  show ?thesis
    using h parse_failure_keeps_template [OF h] by simp
qed

subsection \<open>The outcome of parsing\<close>

text \<open>
  C4. \<open>parse\<close> returns \<open>false\<close> exactly when the text has at least one parse error of the
  specification and the engine is not lenient, and the text has a parse error exactly
  when one of its tokens is a marker as the last byte, a marker and an opening brace
  that is never closed, or a reference to a name that is not defined. The log is
  extended by the diagnostics of these errors, in order. On failure the template object
  is not assigned; on success it is assigned the text and the substitutions of the
  specification; a lenient engine always succeeds.
\<close>

theorem parse_outcome:
  "(fst (parse s text templ lg) = False \<longleftrightarrow> spec_errors s text \<noteq> [] \<and> \<not> m_lenient s)
   \<and> (spec_errors s text \<noteq> [] \<longleftrightarrow>
        (\<exists>t\<in>set (spec_tokens text).
           t = Lone_marker \<or> t = Open_brace \<or> (\<exists>n. ref_name t = Some n \<and> m_variables s n = None)))
   \<and> snd (snd (parse s text templ lg)) = lg @ spec_errors s text
   \<and> (fst (parse s text templ lg) = False \<longrightarrow> fst (snd (parse s text templ lg)) = templ)
   \<and> (fst (parse s text templ lg) = True \<longrightarrow>
         fst (snd (parse s text templ lg))
           = \<lparr>m_text = text, m_substitutions = spec_substitutions s text\<rparr>)
   \<and> (m_lenient s \<longrightarrow> fst (parse s text templ lg) = True)"
  using spec_errors_Nil_iff [of s "text"] by (simp add: parse_spec)

theorem parse_outcome_witness:
  "spec_tokens ''a@'' = [Chr CHR ''a'', Lone_marker]
   \<and> fst (parse (engine_x False) ''a@'' Template_new []) = False
   \<and> spec_tokens (''a@'' @ ''{x'') = [Chr CHR ''a'', Open_brace, Chr CHR ''x'']
   \<and> fst (parse (engine_x False) (''a@'' @ ''{x'') Template_new []) = False
   \<and> spec_tokens (''@x'' @ braced_ref ''missing'') = [Short CHR ''x'', Braced ''missing'']
   \<and> \<not> m_lenient (engine_x False)
   \<and> fst (parse (engine_x False) (''@x'' @ braced_ref ''missing'') Template_new []) = False
   \<and> fst (snd (parse (engine_x False) (''@x'' @ braced_ref ''missing'') Template_new [])) = Template_new
   \<and> snd (snd (parse (engine_x False) (''@x'' @ braced_ref ''missing'') Template_new []))
       = [log_undefined (engine_x False) ''missing'' (braced_ref ''missing'')]
   \<and> m_lenient (engine_x True)
   \<and> fst (parse (engine_x True) (''@x'' @ braced_ref ''missing'') Template_new []) = True
   \<and> spans (fst (snd (parse (engine_x True) (''@x'' @ braced_ref ''missing'') Template_new [])))
       = [(0, 2, Some ''x'')]
   \<and> fst (parse (engine_x False) ''<@x:@@>'' Template_new []) = True
   \<and> spans (fst (snd (parse (engine_x False) ''<@x:@@>'' Template_new [])))
       = [(1, 3, Some ''x''), (4, 6, None)]"
proof -
  have t: "spec_tokens ''a@'' = [Chr CHR ''a'', Lone_marker]"
    "spec_tokens (''a@'' @ ''{x'') = [Chr CHR ''a'', Open_brace, Chr CHR ''x'']"
    "spec_tokens (''@x'' @ braced_ref ''missing'') = [Short CHR ''x'', Braced ''missing'']"
    by code_simp+
  have e: "spec_errors (engine_x False) ''a@'' \<noteq> []"
    "spec_errors (engine_x False) (''a@'' @ ''{x'') \<noteq> []"
    "spec_errors (engine_x False) (''@x'' @ braced_ref ''missing'')
       = [log_undefined (engine_x False) ''missing'' (braced_ref ''missing'')]"
    "spec_errors (engine_x False) ''<@x:@@>'' = []"
    by code_simp+
  have l: "\<not> m_lenient (engine_x False)" "m_lenient (engine_x True)"
    by (simp_all add: engine_x_def)
  have s: "spans \<lparr>m_text = ''@x'' @ braced_ref ''missing'',
                  m_substitutions = spec_substitutions (engine_x True) (''@x'' @ braced_ref ''missing'')\<rparr>
             = [(0, 2, Some ''x'')]"
    "spans \<lparr>m_text = ''<@x:@@>'', m_substitutions = spec_substitutions (engine_x False) ''<@x:@@>''\<rparr>
             = [(1, 3, Some ''x''), (4, 6, None)]"
    by code_simp+
  show ?thesis
    using t e l s
      parse_outcome [of "engine_x False" "''a@''" Template_new "[]"]
      parse_outcome [of "engine_x False" "''a@'' @ ''{x''" Template_new "[]"]
      parse_outcome [of "engine_x False" "''@x'' @ braced_ref ''missing''" Template_new "[]"]
      parse_outcome [of "engine_x True" "''@x'' @ braced_ref ''missing''" Template_new "[]"]
      parse_outcome [of "engine_x False" "''<@x:@@>''" Template_new "[]"]
    by simp
qed

subsection \<open>The spans of a compiled template\<close>

text \<open>
  C7. In a template assigned by a successful \<open>parse\<close>, every substitution ends at or
  before the begin of each later one (no two overlap), the begin offsets increase
  strictly along the list, and every span is non-empty and lies inside the text.
\<close>

theorem parse_spans_ordered:
  assumes "fst (parse s text templ lg) = True"
  shows "sorted_wrt (\<lambda>a b. s_end a \<le> s_begin b) (m_substitutions (fst (snd (parse s text templ lg))))
         \<and> sorted_wrt (\<lambda>a b. s_begin a < s_begin b) (m_substitutions (fst (snd (parse s text templ lg))))
         \<and> (\<forall>x\<in>set (m_substitutions (fst (snd (parse s text templ lg)))).
               s_begin x < s_end x \<and> s_end x \<le> length (m_text (fst (snd (parse s text templ lg)))))"
proof -
  from assms
  have t: "fst (snd (parse s text templ lg)) = \<lparr>m_text = text, m_substitutions = snd (scan s text 0)\<rparr>"
    by (auto simp: parse_scan split: if_splits)
  have sp: "\<forall>x\<in>set (snd (scan s text 0)). s_begin x + 2 \<le> s_end x \<and> s_end x \<le> length text"
    and so: "sorted_wrt (\<lambda>a b. s_end a \<le> s_begin b) (snd (scan s text 0))"
    using scan_spans [of s "text" 0] by simp_all
  have "sorted_wrt (\<lambda>a b. s_begin a < s_begin b) (snd (scan s text 0))"
  proof (rule sorted_wrt_mono_rel [OF _ so])
    fix a b
    assume "a \<in> set (snd (scan s text 0))" and "s_end a \<le> s_begin b"
    with sp show "s_begin a < s_begin b" by fastforce
  qed
  with sp so show ?thesis unfolding t by fastforce
qed

theorem parse_spans_ordered_witness:
  "fst (parse (engine_x False) ''<@x:@@@x>'' Template_new []) = True
   \<and> spans (fst (snd (parse (engine_x False) ''<@x:@@@x>'' Template_new [])))
       = [(1, 3, Some ''x''), (4, 6, None), (6, 8, Some ''x'')]
   \<and> sorted_wrt (\<lambda>a b. s_end a \<le> s_begin b)
        (m_substitutions (fst (snd (parse (engine_x False) ''<@x:@@@x>'' Template_new []))))
   \<and> sorted_wrt (\<lambda>a b. s_begin a < s_begin b)
        (m_substitutions (fst (snd (parse (engine_x False) ''<@x:@@@x>'' Template_new []))))"
proof -
  have ok: "fst (parse (engine_x False) ''<@x:@@@x>'' Template_new []) = True"
    by code_simp
  have sp: "spans (fst (snd (parse (engine_x False) ''<@x:@@@x>'' Template_new [])))
       = [(1, 3, Some ''x''), (4, 6, None), (6, 8, Some ''x'')]"
    by code_simp
  from parse_spans_ordered [OF ok] ok sp show ?thesis
    by blast
qed

subsection \<open>Value bindings\<close>

text \<open>
  C10. The function installed by a value binding \<open>subst[name] = var\<close> writes the object
  that \<open>var\<close> points to in the store it is run with, that is the object as it is when
  the template is expanded, and does not look at the context arguments. A template that
  is a braced reference to the variable expands, on the new stream of the string
  overload, to what \<open>operator<<\<close> writes for that object, whatever the context
  arguments; the empty insertion that ends the expansion pads to the field width that
  \<open>operator<<\<close> has left, if any.
\<close>

theorem value_binding_dereferences:
  assumes "assign_value ins name var s = Inr s'"
  shows "(\<exists>f. m_variables s' name = Some f
            \<and> (\<forall>store out arg. f store out arg = ins (store var) out))
         \<and> (CHR ''}'' \<notin> set name \<longrightarrow>
              (\<forall>global store arg.
                 Template_expand_str global (snd (compile s' (braced_ref name))) store arg
                   = (case ins (store var) (imbue classic (ostringstream global)) of
                        (Some e, out) \<Rightarrow> Inl e
                      | (None, out) \<Rightarrow>
                          if bad out then (if throwing out then Inl ios_failure else Inr (buf out))
                          else Inr (buf out @ replicate (width out) (fill out)))))"
proof -
  from assms have "\<exists>f. m_variables s' name = Some f
      \<and> (\<forall>store out arg. f store out arg = ins (store var) out)"
    by (auto simp: assign_value_def assign_func_def Substituter_define_def split: option.splits)
  with value_binding_expand_str [OF assms] show ?thesis by blast
qed

theorem value_binding_dereferences_witness:
  "assign_value put_str ''v'' 0 (Substituter_new False) = Inr engine_v
   \<and> CHR ''}'' \<notin> set ''v''
   \<and> (\<exists>f. m_variables engine_v ''v'' = Some f
         \<and> f (\<lambda>a. ''1'') (ostringstream classic) [] = put_str ''1'' (ostringstream classic)
         \<and> f (\<lambda>a. ''2'') (ostringstream classic) [''ctx''] = put_str ''2'' (ostringstream classic))
   \<and> Template_expand_str classic (snd (compile engine_v (braced_ref ''v''))) (\<lambda>a. ''1'') [] = Inr ''1''
   \<and> Template_expand_str classic (snd (compile engine_v (braced_ref ''v''))) (\<lambda>a. ''2'') [''ctx'']
       = Inr ''2''"
proof -
  have h: "assign_value put_str ''v'' 0 (Substituter_new False) = Inr engine_v"
    by (simp add: engine_v_def assign_value_def assign_func_def Substituter_define_def
        Substituter_new_def)
  have n: "CHR ''}'' \<notin> set ''v''" by simp
  from value_binding_dereferences [OF h] n
  have e: "\<exists>f. m_variables engine_v ''v'' = Some f
         \<and> f (\<lambda>a. ''1'') (ostringstream classic) [] = put_str ''1'' (ostringstream classic)
         \<and> f (\<lambda>a. ''2'') (ostringstream classic) [''ctx''] = put_str ''2'' (ostringstream classic)"
    and x: "\<And>store arg. Template_expand_str classic (snd (compile engine_v (braced_ref ''v''))) store arg
        = (case put_str (store 0) (imbue classic (ostringstream classic)) of
             (Some e, out) \<Rightarrow> Inl e
           | (None, out) \<Rightarrow>
               if bad out then (if throwing out then Inl ios_failure else Inr (buf out))
               else Inr (buf out @ replicate (width out) (fill out)))"
    by blast+
  from x [of "\<lambda>a. ''1''" "[]"] x [of "\<lambda>a. ''2''" "[''ctx'']"] h n e show ?thesis
    by (simp add: put_str_def padded_def imbue_def ostringstream_def)
qed

subsection \<open>Field bindings\<close>

text \<open>
  C2 does not hold as stated: an owner type that two context types convert to is not an
  error. Here both \<open>CtxA\<close> and \<open>CtxB\<close> derive from the owner \<open>Base\<close>; the binding is
  accepted and reads the first context argument.
\<close>

theorem field_binding_two_matches:
  "derives CtxA Base \<and> derives CtxB Base
   \<and> (case assign_field derives [CtxA, CtxB] Base id put_str ''f'' (Substituter_new False) of
        Inl _ \<Rightarrow> None
      | Inr s \<Rightarrow>
          map_option (\<lambda>f. buf (snd (f (\<lambda>a::nat. []) (ostringstream classic) [''a'', ''b''])))
            (m_variables s ''f'')) = Some ''a''"
  by (simp add: derives_def assign_field_def assign_func_def Substituter_define_def
      Substituter_new_def put_str_def padded_def ostringstream_def)

text \<open>
  C2, amended. A field binding is resolved to the first context type, in the order of
  the engine's type list, that converts to the owner type, and its function reads the
  context argument at that position. When no context type converts, the binding is
  ill-formed: the program that contains it does not compile, so nothing is deferred to
  expansion. More than one match is not an error.
\<close>

theorem field_binding_first_match:
  fixes member :: "'v \<Rightarrow> 'v" and s :: "('a, 'v) Substituter"
  shows "(if \<exists>A\<in>set As. conv A C then
      \<exists>sel. FindArg1 conv C As = Some sel
        \<and> (\<forall>args. length args = length As \<longrightarrow>
               sel args = args ! length (takeWhile (\<lambda>A. \<not> conv A C) As))
        \<and> assign_field conv As C member ins name s =
            Substituter_define name (\<lambda>store out arg. ins (member (sel arg)) out) s
    else assign_field conv As C member ins name s = Inl ill_formed)"
proof (cases "\<exists>A\<in>set As. conv A C")
  case True
  then have "FindArg1 conv C As \<noteq> (None :: ('v list \<Rightarrow> 'v) option)"
    by (simp add: FindArg1_None_iff)
  then obtain sel :: "'v list \<Rightarrow> 'v" where sel: "FindArg1 conv C As = Some sel"
    by auto
  have nth: "\<forall>args. length args = length As \<longrightarrow>
               sel args = args ! length (takeWhile (\<lambda>A. \<not> conv A C) As)"
    using FindArg1_Some_nth [OF sel] by simp
  have "assign_field conv As C member ins name s =
          Substituter_define name (\<lambda>store out arg. ins (member (sel arg)) out) s"
    by (simp add: assign_field_def assign_func_def sel)
  with True sel nth show ?thesis by auto
next
  case False
  then have "FindArg1 conv C As = (None :: ('v list \<Rightarrow> 'v) option)"
    by (simp add: FindArg1_None_iff)
  with False show ?thesis by (simp add: assign_field_def)
qed

theorem field_binding_first_match_witness:
  "derives CtxB Base
   \<and> \<not> isl (assign_field derives [CtxA, CtxB] Base id put_str ''f''
               (Substituter_new False :: (nat, string) Substituter))
   \<and> \<not> derives CtxA CtxB
   \<and> assign_field derives [CtxA] CtxB id put_str ''f''
        (Substituter_new False :: (nat, string) Substituter) = Inl ill_formed"
proof -
  have m: "\<exists>A\<in>set [CtxA, CtxB]. derives A Base" and n: "\<not> (\<exists>A\<in>set [CtxA]. derives A CtxB)"
    by (auto simp: derives_def)
  from m field_binding_first_match
      [where As = "[CtxA, CtxB]" and conv = derives and C = Base and member = id
        and s = "Substituter_new False :: (nat, string) Substituter" and ins = put_str
        and name = "''f''"]
  obtain sel where "assign_field derives [CtxA, CtxB] Base id put_str ''f''
        (Substituter_new False :: (nat, string) Substituter)
      = Substituter_define ''f'' (\<lambda>store out arg. put_str (id (sel arg)) out) (Substituter_new False)"
    by auto
  then have a: "\<not> isl (assign_field derives [CtxA, CtxB] Base id put_str ''f''
               (Substituter_new False :: (nat, string) Substituter))"
    by (simp add: Substituter_define_def Substituter_new_def)
  from n field_binding_first_match
      [where As = "[CtxA]" and conv = derives and C = CtxB and member = id
        and s = "Substituter_new False :: (nat, string) Substituter" and ins = put_str
        and name = "''f''"]
  have b: "assign_field derives [CtxA] CtxB id put_str ''f''
        (Substituter_new False :: (nat, string) Substituter) = Inl ill_formed"
    by auto
  from a b show ?thesis by (simp add: derives_def)
qed

subsection \<open>Formatting state across evaluators\<close>



subsection \<open>Determinism of the expansion\<close>




subsection \<open>The escape\<close>




subsection \<open>References to undefined variables\<close>

text \<open>
  C1 does not hold as stated: the bytes of a reference to an undefined variable are not
  omitted from the output of a lenient engine, they are written as they stand.
\<close>

theorem lenient_output_keeps_undefined_reference:
  "fst (compile (engine_x True) (''a'' @ braced_ref ''u'' @ ''b@x''))
   \<and> Template_expand_str classic (snd (compile (engine_x True) (''a'' @ braced_ref ''u'' @ ''b@x'')))
        (\<lambda>a. []) []
       = Inr (''a'' @ braced_ref ''u'' @ ''bX'')
   \<and> ''a'' @ braced_ref ''u'' @ ''bX'' \<noteq> ''abX''"
  by code_simp

text \<open>
  C1, amended. Let the token \<open>t\<close> of the text be a reference, braced or of one
  character, to a name that is not defined. A lenient engine parses the text
  successfully and logs the undefined variable; the substitutions it records are those
  of the specification, and none of them touches the bytes of \<open>t\<close>; the expansion is
  the rendering of the specification, which runs the evaluator of every resolved
  reference and writes one marker for every escape, and in which the bytes of \<open>t\<close>
  are written unchanged, as if they were ordinary characters of the text.
\<close>

theorem lenient_echoes_undefined_reference:
  assumes "m_lenient s"
    and "spec_tokens text = before @ t # after"
    and "ref_name t = Some name" and "m_variables s name = None"
  shows "fst (compile s text)
    \<and> log_undefined s name (raw t) \<in> set (parse_errors s text)
    \<and> text = concat (map raw before) @ raw t @ concat (map raw after)
    \<and> m_substitutions (snd (compile s text)) = spec_substitutions s text
    \<and> (\<forall>x\<in>set (m_substitutions (snd (compile s text))).
          s_end x \<le> length (concat (map raw before))
          \<or> length (concat (map raw before)) + length (raw t) \<le> s_begin x)
    \<and> Template_expand (snd (compile s text)) store arg out
        = rendering s (spec_tokens text) store arg out
    \<and> rendering s (spec_tokens text) store arg out
        = rendering s (before @ map Chr (raw t) @ after) store arg out"
proof -
  note m = meaning_of_undefined [OF assms(3,4)]
  from assms(1) have c: "compile s text
      = (True, \<lparr>m_text = text, m_substitutions = spec_substitutions s text\<rparr>)"
    by (simp add: compile_def parse_spec)
  have e: "log_undefined s name (raw t) \<in> set (parse_errors s text)"
    by (simp add: parse_errors_scan scan_spec spec_errors_def assms(2) m)
  have r: "text = concat (map raw before) @ raw t @ concat (map raw after)"
    using raw_spec_tokens [of "text"] by (simp add: assms(2))
  have sp: "spec_substitutions s text
      = spec_spans s 0 before
        @ spec_spans s (length (concat (map raw before)) + length (raw t)) after"
    by (simp add: spec_substitutions_def assms(2) spec_spans_append m)
  have n: "\<forall>x\<in>set (spec_substitutions s text).
          s_end x \<le> length (concat (map raw before))
          \<or> length (concat (map raw before)) + length (raw t) \<le> s_begin x"
    unfolding sp using spec_spans_bounds [of _ s 0 before]
      spec_spans_bounds [of _ s "length (concat (map raw before)) + length (raw t)" after]
    by auto
  have l: "rendering s (spec_tokens text) store arg out
        = rendering s (before @ map Chr (raw t) @ after) store arg out"
    unfolding assms(2) using m by (intro rendering_literal) simp
  from c e r n l show ?thesis
    by (simp add: Template_expand_spec)
qed

theorem lenient_echoes_undefined_reference_witness:
  "m_lenient (engine_x True)
   \<and> spec_tokens (''@xa'' @ braced_ref ''u'' @ ''b@x'')
       = [Short CHR ''x'', Chr CHR ''a''] @ Braced ''u'' # [Chr CHR ''b'', Short CHR ''x'']
   \<and> ref_name (Braced ''u'') = Some ''u'' \<and> m_variables (engine_x True) ''u'' = None
   \<and> fst (compile (engine_x True) (''@xa'' @ braced_ref ''u'' @ ''b@x''))
   \<and> spans (snd (compile (engine_x True) (''@xa'' @ braced_ref ''u'' @ ''b@x'')))
       = [(0, 2, Some ''x''), (8, 10, Some ''x'')]
   \<and> Template_expand (snd (compile (engine_x True) (''@xa'' @ braced_ref ''u'' @ ''b@x''))) (\<lambda>a. []) []
        (ostringstream classic)
       = (None, (ostringstream classic)\<lparr>buf := ''Xa'' @ braced_ref ''u'' @ ''bX''\<rparr>)"
proof -
  have h1: "m_lenient (engine_x True)" and h4: "m_variables (engine_x True) ''u'' = None"
    by (simp_all add: engine_x_def)
  have h2: "spec_tokens (''@xa'' @ braced_ref ''u'' @ ''b@x'')
       = [Short CHR ''x'', Chr CHR ''a''] @ Braced ''u'' # [Chr CHR ''b'', Short CHR ''x'']"
    by code_simp
  have h3: "ref_name (Braced ''u'') = Some ''u''" by simp
  have sp: "spans (snd (compile (engine_x True) (''@xa'' @ braced_ref ''u'' @ ''b@x'')))
       = [(0, 2, Some ''x''), (8, 10, Some ''x'')]"
    by code_simp
  have r: "rendering (engine_x True)
        ([Short CHR ''x'', Chr CHR ''a''] @ map Chr (raw (Braced ''u'')) @ [Chr CHR ''b'', Short CHR ''x''])
        (\<lambda>a. []) [] (ostringstream classic)
       = (None, (ostringstream classic)\<lparr>buf := ''Xa'' @ braced_ref ''u'' @ ''bX''\<rparr>)"
    by code_simp
  from lenient_echoes_undefined_reference [OF h1 h2 h3 h4, where store = "\<lambda>a. []" and arg = "[]"
      and out = "ostringstream classic"] h1 h2 h3 h4 sp r
  show ?thesis by simp
qed

end
